theory Spec2Isabelle
  imports Main "HOL-Library.Sublist" "HOL-Library.Multiset"
begin

text \<open>
  The dialogue manager of \<^verbatim>\<open>src/main.ts\<close>: a state machine that races the speech
  recogniser against the keyboard, buffers what the user says, commits the buffer into the
  message history when a key is pressed, and then does what the key selects. The machine
  is given to a state machine library as a table of states; the way that library runs
  such a table (entry actions, invoked actors, guarded eventless transitions taken until
  none is enabled, events of settled actors) is written out here as functions on
  snapshots.
\<close>

section \<open>Strings of the host language\<close>

text \<open>
  Texts are byte strings. The three string operations of the host language that
  \<^verbatim>\<open>src/main.ts\<close> relies on are written out: \<^verbatim>\<open>toLowerCase\<close> on the ASCII letters
  (every other byte is kept, which is what the host does on ASCII text; the marker
  \<^verbatim>\<open>nomatch\<close> and the key names are ASCII), \<^verbatim>\<open>includes\<close> as a search for the first
  position where the needle starts, and \<^verbatim>\<open>Array.prototype.join\<close> as the accumulating
  loop of the language standard.
\<close>

definition upperCase :: string where
  "upperCase = ''ABCDEFGHIJKLMNOPQRSTUVWXYZ''"

definition lowerCase :: string where
  "lowerCase = ''abcdefghijklmnopqrstuvwxyz''"

definition toLowerChar :: "char \<Rightarrow> char" where
  "toLowerChar c = (case map_of (zip upperCase lowerCase) c of None \<Rightarrow> c | Some l \<Rightarrow> l)"

definition toLowerCase :: "string \<Rightarrow> string" where
  "toLowerCase s = map toLowerChar s"

fun startsWith :: "string \<Rightarrow> string \<Rightarrow> bool" where
  "startsWith s [] = True"
| "startsWith [] (c # t) = False"
| "startsWith (a # s) (c # t) = (a = c \<and> startsWith s t)"

fun includes_str :: "string \<Rightarrow> string \<Rightarrow> bool" where
  "includes_str [] t = (t = [])"
| "includes_str (a # s) t = (startsWith (a # s) t \<or> includes_str s t)"

fun join_loop :: "string \<Rightarrow> string \<Rightarrow> string list \<Rightarrow> string" where
  "join_loop sep R [] = R"
| "join_loop sep R (x # xs) = join_loop sep (R @ sep @ x) xs"

definition join :: "string list \<Rightarrow> string \<Rightarrow> string" where
  "join xs sep = (case xs of [] \<Rightarrow> [] | x # rest \<Rightarrow> join_loop sep x rest)"

section \<open>Types of \<^verbatim>\<open>src/main.ts\<close>\<close>

datatype role = Assistant | User | System

record Message =
  role :: role
  content :: string

record DMContext =
  lastResult :: string
  messages :: "Message list"
  isFirstMessage :: bool
  pendingManipulation :: "string option"
  keyPressed :: "string option"
  userSpeechBuffer :: "string list"

section \<open>The functions outside the machine\<close>

text \<open>
  \<^verbatim>\<open>fetchChatCompletion\<close> wraps the whole HTTP exchange in \<^verbatim>\<open>try\<close>/\<^verbatim>\<open>catch\<close> and returns
  a fixed text from the \<^verbatim>\<open>catch\<close>: it never rejects. The exchange itself is outside the
  repository, so its possible courses are the argument: the request is refused, the
  status is not ok, the body is not JSON, the JSON has no \<^verbatim>\<open>message\<close>, or a reply text
  arrives. (A message without a text is outside the types of the source.)
\<close>

datatype exchange =
    FetchRejects
  | StatusNotOk nat
  | JsonRejects
  | NoMessage
  | Reply string

definition connectionErrorText :: string where
  "connectionErrorText =
     ''Error while connecting to the language model. Probably ssh tunnel is not active.''"

fun fetchChatCompletion :: "exchange \<Rightarrow> string" where
  "fetchChatCompletion (Reply assistantMessage) = assistantMessage"
| "fetchChatCompletion _ = connectionErrorText"




definition sanitizeUtterance :: "string \<Rightarrow> string" where
  "sanitizeUtterance utterance =
     (if includes_str (toLowerCase utterance) ''nomatch'' then ''...'' else utterance)"

section \<open>The state machine\<close>

datatype state =
    SetVoice
  | AttendUser
  | InitialSpeak
  | ListeningOrWaitingForKey
  | CheckIfKeypressOrContinueListening
  | ProcessAccumulatedSpeech
  | ProcessKeypress
  | ListMessages
  | AddManipulation
  | SpeakManipulation
  | ProcessingResponse
  | Speaking
  | End
  | SessionExitingQuestionForTheResearcher
  | LastQuestionWaitForYN
  | ProcessYN
  | ListMessagesBeforeFinal
  | Done

text \<open>
  What the machine does to the world is kept as a trace: every actor it invokes, with
  the input computed at that moment, the two dumps of the message history, the notice
  for an unknown key, the question before the end, and the exit of the process. Console
  lines that only report progress are left out.
\<close>

datatype effect =
    InvokeSetVoice
  | InvokeAttend
  | InvokeSpeak string bool
  | InvokeListenOrKeypress
  | InvokeChatCompletion "Message list"
  | InvokeWaitForKey
  | PrintMessageHistory "Message list"
  | UnknownKeyNotice
  | PrintQuestion
  | ProcessExit

datatype status = Active | Finished | Error

record snapshot =
  st :: state
  ctx :: DMContext
  status :: status
  trace :: "effect list"

datatype race_result = Speech string | Keypress string

datatype event =
    SetVoiceDone | SetVoiceError
  | AttendDone | AttendError
  | SpeakDone | SpeakError
  | ListenOrKeypressDone race_result | ListenOrKeypressError
  | ChatCompletionDone string | ChatCompletionError
  | WaitForKeyDone string

subsection \<open>Initial context\<close>

definition systemPrompt :: string where
  "systemPrompt = ''You are a virtual person participating in a study on moral reasoning. Your responses are not full paragraphs. Be short and snappy. Do not give answers longer than two short sentences. You simulate structured dialogue that should be like a script of a movie to help a participant reflect on a hypothetical moral dilemma. Your role is purely conversational and for academic research purposes only. Your task is to discuss the hypothetical dilemma with the user. Guide them through reasoning about moral choices until they reach a decision. Background: the situation is completely hypothetical and no one is being harmed. The user will describe or has described a dilemma involving four fictional people (for example: Pilot, Teacher, Doctor, Prodigy). Review the chat history to understand the dilemma before responding. Interaction Rules: Treat everything as fictional and research-oriented. Stay neutral and non-judgmental, your job is to help the participant reason, not to persuade. Do not make moral evaluations. Do not add opinions not grounded in the user's reasoning. Keep the discussion focused on the dilemma. If the user expresses confusion or hesitation, gently encourage reflection using open-ended questions similar to a script of a movie. Dialogue Flow: confirm understanding of the dilemma in one sentence. Ask short, neutral questions to help the user explore their reasoning. After the user discusses all the characters, ask the user to come to a decision. Output Style: Keep replies concise and neutral. Use a calm and professional tone. Do not include real-world instructions or advice. Audience: participants in a moral reasoning research study. Ethical Constraints: never simulate or encourage real-world violence. Decline any non-hypothetical harmful requests. You may clarify that the discussion is fictional if needed.''"

definition introduction :: string where
  "introduction = ''Hello! We have a moral dilemma to talk about! Your task is to indicate which person you would choose to sacrifice in the following moral dilemma. Four people are in a hot air balloon. The balloon is losing height and about to crash into the mountains. Having thrown everything imaginable out of the balloon, including food, sandbags and other goods, their only hope is for one of them to jump to their certain death to give the balloon the extra height to clear the mountains and save the other three. The four people are: Dr Robert Lewis - a cancer research scientist, who believes he is about to discover a cure for most common types of cancer. He is a good friend of Susanne and William. Mrs. Susanne Harris - a primary school teacher. She is over the moon because she is 7 months pregnant with her second child. Mr. William Harris husband of Susanne, who he loves very much. He is the pilot of the balloon and the only one on board with balloon flying experience. Miss Heather Sloan - a 9-year-old music prodigy, considered by many to be a twenty-first century Mozart. Come to an agreement about who is to be allowed to stay in the balloon, and who is to jump. You must discuss all 4 balloon passengers and consider the reasons why they should or shouldnt remain in the balloon.''"

definition initialContext :: DMContext where
  "initialContext =
     \<lparr> lastResult = [],
       messages = [\<lparr> role = System, content = systemPrompt \<rparr>,
                   \<lparr> role = Assistant, content = introduction \<rparr>],
       isFirstMessage = True,
       pendingManipulation = None,
       keyPressed = None,
       userSpeechBuffer = [] \<rparr>"

subsection \<open>Guards\<close>

definition isListMessagesKey :: "DMContext \<Rightarrow> bool" where
  "isListMessagesKey c = (keyPressed c = Some ''m'')"

definition isDiscussKey :: "DMContext \<Rightarrow> bool" where
  "isDiscussKey c = (keyPressed c = Some ''l'')"

definition isQuitKey :: "DMContext \<Rightarrow> bool" where
  "isQuitKey c = (keyPressed c = Some ''0'')"

definition manipulationKeys :: "string list" where
  "manipulationKeys =
     [''1'', ''2'', ''3'', ''4'', ''q'', ''w'', ''e'', ''r'', ''a'', ''s'', ''d'', ''f'']"

definition isManipulationKey :: "DMContext \<Rightarrow> bool" where
  "isManipulationKey c =
     (case keyPressed c of None \<Rightarrow> False | Some k \<Rightarrow> k \<in> set manipulationKeys)"

definition isYesKey :: "DMContext \<Rightarrow> bool" where
  "isYesKey c = (keyPressed c = Some ''y'')"

definition isNoKey :: "DMContext \<Rightarrow> bool" where
  "isNoKey c = (keyPressed c = Some ''n'')"

subsection \<open>Entering a state\<close>

text \<open>
  \<open>enter s c\<close> makes \<open>s\<close> the active state: its entry actions run, then the actor it
  invokes is started with the input computed from the context of that moment.
  \<^verbatim>\<open>InitialSpeak\<close> and \<^verbatim>\<open>Speaking\<close> read the content of the last message; on an empty
  history that read throws, which stops the machine with status \<open>Error\<close>.
  \<^verbatim>\<open>AddManipulation\<close> looks the pressed key up in its table of phrases; the state is only
  entered under the guard \<^verbatim>\<open>isManipulationKey\<close>, so the phrase is there, and the model
  gives status \<open>Error\<close> to the ill-typed case of an absent phrase.
\<close>

definition lastMessage :: "DMContext \<Rightarrow> Message option" where
  "lastMessage c = (if messages c = [] then None else Some (last (messages c)))"

definition manipulations :: "string \<rightharpoonup> string" where
  "manipulations = map_of
     [(''1'', ''Hmm, the Doctor?''),
      (''2'', ''Hmm, the pregnant lady?''),
      (''3'', ''Hmm, the child?''),
      (''4'', ''Hmm, the pilot?''),
      (''q'', ''........ The Doctor?''),
      (''w'', ''........ The pregnant lady?''),
      (''e'', ''........ The child?''),
      (''r'', ''........ The pilot?''),
      (''a'', ''Hahaha, the Doctor?''),
      (''s'', ''Hahaha, the pregnant lady?''),
      (''d'', ''Hahaha, the child?''),
      (''f'', ''Hahaha, the pilot?'')]"

definition farewell :: string where
  "farewell = ''Thank you for your participation.''"

definition apology :: string where
  "apology = ''I couldn't process that. Please say it again.''"

definition invoke :: "effect \<Rightarrow> snapshot \<Rightarrow> snapshot" where
  "invoke e c = c\<lparr>trace := trace c @ [e]\<rparr>"

definition speakLastMessage :: "bool \<Rightarrow> snapshot \<Rightarrow> snapshot" where
  "speakLastMessage first c =
     (case lastMessage (ctx c) of
        None \<Rightarrow> c\<lparr>status := Error\<rparr>
      | Some m \<Rightarrow> invoke (InvokeSpeak (content m) first) c)"

fun entry :: "state \<Rightarrow> snapshot \<Rightarrow> snapshot" where
  "entry SetVoice c = invoke InvokeSetVoice c"
| "entry AttendUser c = invoke InvokeAttend c"
| "entry InitialSpeak c = speakLastMessage (isFirstMessage (ctx c)) c"
| "entry ListeningOrWaitingForKey c = invoke InvokeListenOrKeypress c"
| "entry ListMessages c = invoke (PrintMessageHistory (messages (ctx c))) c"
| "entry AddManipulation c =
     (case manipulations (case keyPressed (ctx c) of None \<Rightarrow> [] | Some k \<Rightarrow> k) of
        None \<Rightarrow> c\<lparr>status := Error\<rparr>
      | Some phrase \<Rightarrow>
          c\<lparr>ctx := (ctx c)\<lparr>messages := messages (ctx c) @ [\<lparr>role = Assistant, content = phrase\<rparr>],
                           pendingManipulation := Some phrase\<rparr>\<rparr>)"
| "entry SpeakManipulation c =
     invoke (InvokeSpeak (case pendingManipulation (ctx c) of None \<Rightarrow> [] | Some p \<Rightarrow> p) False) c"
| "entry ProcessingResponse c = invoke (InvokeChatCompletion (messages (ctx c))) c"
| "entry Speaking c = speakLastMessage False c"
| "entry End c = invoke (InvokeSpeak farewell False) c"
| "entry SessionExitingQuestionForTheResearcher c = invoke PrintQuestion c"
| "entry LastQuestionWaitForYN c = invoke InvokeWaitForKey (invoke PrintQuestion c)"
| "entry ListMessagesBeforeFinal c = invoke (PrintMessageHistory (messages (ctx c))) c"
| "entry Done c = (invoke ProcessExit c)\<lparr>status := Finished\<rparr>"
| "entry _ c = c"

definition enter :: "state \<Rightarrow> snapshot \<Rightarrow> snapshot" where
  "enter s c = entry s (c\<lparr>st := s\<rparr>)"

subsection \<open>Eventless transitions\<close>

text \<open>
  A state's \<^verbatim>\<open>always\<close> array is a list of transitions; the first one whose guard holds
  is taken: its actions run, then its target is entered. A transition without a guard
  has the guard that always holds.
\<close>

record transition =
  guard :: "DMContext \<Rightarrow> bool"
  target :: state
  assigns :: "DMContext \<Rightarrow> DMContext"
  logs :: "effect list"

definition goto :: "(DMContext \<Rightarrow> bool) \<Rightarrow> state \<Rightarrow> transition" where
  "goto g s = \<lparr>guard = g, target = s, assigns = (\<lambda>c. c), logs = []\<rparr>"

definition commitSpeech :: "DMContext \<Rightarrow> DMContext" where
  "commitSpeech c =
     (let combinedInput = join (userSpeechBuffer c) '' ''
      in c\<lparr>messages := messages c @ [\<lparr>role = User, content = combinedInput\<rparr>],
            userSpeechBuffer := []\<rparr>)"

definition ProcessKeypress_guarded :: "transition list" where
  "ProcessKeypress_guarded =
     [goto isQuitKey End,
      goto isDiscussKey ProcessingResponse,
      goto isListMessagesKey ListMessages,
      goto isManipulationKey AddManipulation]"

definition ProcessKeypress_default :: transition where
  "ProcessKeypress_default =
     \<lparr>guard = (\<lambda>c. True), target = ListeningOrWaitingForKey, assigns = (\<lambda>c. c),
      logs = [UnknownKeyNotice]\<rparr>"

definition ProcessYN_always :: "transition list" where
  "ProcessYN_always =
     [goto isYesKey ListMessagesBeforeFinal,
      goto isNoKey Done]"

fun always_transitions :: "state \<Rightarrow> transition list" where
  "always_transitions CheckIfKeypressOrContinueListening =
     [goto (\<lambda>c. keyPressed c \<noteq> None) ProcessAccumulatedSpeech,
      goto (\<lambda>c. True) ListeningOrWaitingForKey]"
| "always_transitions ProcessAccumulatedSpeech =
     [\<lparr>guard = (\<lambda>c. length (userSpeechBuffer c) > 0), target = ProcessKeypress,
       assigns = commitSpeech, logs = []\<rparr>,
      goto (\<lambda>c. True) ProcessKeypress]"
| "always_transitions ProcessKeypress = ProcessKeypress_guarded @ [ProcessKeypress_default]"
| "always_transitions ListMessages = [goto (\<lambda>c. True) ListeningOrWaitingForKey]"
| "always_transitions AddManipulation = [goto (\<lambda>c. True) SpeakManipulation]"
| "always_transitions SessionExitingQuestionForTheResearcher =
     [goto (\<lambda>c. True) LastQuestionWaitForYN]"
| "always_transitions ProcessYN = ProcessYN_always"
| "always_transitions ListMessagesBeforeFinal = [goto (\<lambda>c. True) Done]"
| "always_transitions _ = []"

definition select :: "transition list \<Rightarrow> DMContext \<Rightarrow> transition option" where
  "select ts c = find (\<lambda>t. guard t c) ts"

definition take_transition :: "transition \<Rightarrow> snapshot \<Rightarrow> snapshot" where
  "take_transition t c = enter (target t) (c\<lparr>ctx := assigns t (ctx c), trace := trace c @ logs t\<rparr>)"

definition always :: "snapshot \<Rightarrow> snapshot option" where
  "always c =
     (if status c \<noteq> Active then None
      else map_option (\<lambda>t. take_transition t c) (select (always_transitions (st c)) (ctx c)))"

fun rank :: "state \<Rightarrow> nat" where
  "rank CheckIfKeypressOrContinueListening = 5"
| "rank ProcessAccumulatedSpeech = 4"
| "rank ProcessKeypress = 3"
| "rank ListMessages = 2"
| "rank ProcessYN = 2"
| "rank AddManipulation = 1"
| "rank ListMessagesBeforeFinal = 1"
| "rank SessionExitingQuestionForTheResearcher = 1"
| "rank _ = 0"

lemma st_enter: "st (enter s c) = s"
  by (cases s)
     (simp_all add: enter_def invoke_def speakLastMessage_def split: option.splits)

lemma rank_always_transitions:
  "t \<in> set (always_transitions s) \<Longrightarrow> rank (target t) < rank s"
  by (cases s) (auto simp: goto_def ProcessKeypress_guarded_def ProcessKeypress_default_def
      ProcessYN_always_def)

lemma always_rank: "always c = Some c' \<Longrightarrow> rank (st c') < rank (st c)"
proof -
  assume a: "always c = Some c'"
  then obtain t where f: "select (always_transitions (st c)) (ctx c) = Some t"
    and c': "c' = take_transition t c"
    by (auto simp: always_def split: if_splits)
  from f have "t \<in> set (always_transitions (st c))"
    by (auto simp: select_def find_Some_iff)
  then have "rank (target t) < rank (st c)"
    by (rule rank_always_transitions)
  with c' show ?thesis
    by (simp add: take_transition_def st_enter)
qed

function settle :: "snapshot \<Rightarrow> snapshot" where
  "settle c = (case always c of None \<Rightarrow> c | Some c' \<Rightarrow> settle c')"
  by pat_completeness auto
termination
  by (relation "measure (\<lambda>c. rank (st c))") (auto simp: always_rank)

subsection \<open>Transitions on the events of the invoked actors\<close>

text \<open>
  Each state handles the settlement of the actor it invokes; any other event finds no
  transition and is dropped. The only transition that targets its own state is the error
  handler of \<^verbatim>\<open>ListeningOrWaitingForKey\<close>: it is written without \<^verbatim>\<open>reenter\<close>, so the
  state is neither left nor entered again and nothing is invoked anew.
  \<^verbatim>\<open>LastQuestionWaitForYN\<close> has no error handler.
\<close>

definition onListenOrKeypress :: "race_result \<Rightarrow> DMContext \<Rightarrow> DMContext" where
  "onListenOrKeypress result c =
     (case result of
        Speech rawUtterance \<Rightarrow>
          (let utterance = sanitizeUtterance rawUtterance
           in c\<lparr>lastResult := utterance,
                 userSpeechBuffer := userSpeechBuffer c @ [utterance],
                 keyPressed := None\<rparr>)
      | Keypress data \<Rightarrow> c\<lparr>keyPressed := Some data\<rparr>)"

definition assign :: "(DMContext \<Rightarrow> DMContext) \<Rightarrow> snapshot \<Rightarrow> snapshot" where
  "assign f c = c\<lparr>ctx := f (ctx c)\<rparr>"

fun on_event :: "state \<Rightarrow> event \<Rightarrow> snapshot \<Rightarrow> snapshot option" where
  "on_event SetVoice ev c =
     (case ev of
        SetVoiceDone \<Rightarrow> Some (enter AttendUser c)
      | SetVoiceError \<Rightarrow> Some (enter InitialSpeak c)
      | _ \<Rightarrow> None)"
| "on_event AttendUser ev c =
     (case ev of
        AttendDone \<Rightarrow> Some (enter InitialSpeak c)
      | AttendError \<Rightarrow> Some (enter InitialSpeak c)
      | _ \<Rightarrow> None)"
| "on_event InitialSpeak ev c =
     (case ev of
        SpeakDone \<Rightarrow>
          Some (enter ListeningOrWaitingForKey (assign (\<lambda>x. x\<lparr>isFirstMessage := False\<rparr>) c))
      | SpeakError \<Rightarrow> Some (enter ListeningOrWaitingForKey c)
      | _ \<Rightarrow> None)"
| "on_event ListeningOrWaitingForKey ev c =
     (case ev of
        ListenOrKeypressDone result \<Rightarrow>
          Some (enter CheckIfKeypressOrContinueListening (assign (onListenOrKeypress result) c))
      | ListenOrKeypressError \<Rightarrow> Some c
      | _ \<Rightarrow> None)"
| "on_event SpeakManipulation ev c =
     (case ev of
        SpeakDone \<Rightarrow>
          Some (enter ListeningOrWaitingForKey
            (assign (\<lambda>x. x\<lparr>pendingManipulation := None\<rparr>) c))
      | SpeakError \<Rightarrow> Some (enter ListeningOrWaitingForKey c)
      | _ \<Rightarrow> None)"
| "on_event ProcessingResponse ev c =
     (case ev of
        ChatCompletionDone output \<Rightarrow>
          Some (enter Speaking
            (assign (\<lambda>x. x\<lparr>messages := messages x @ [\<lparr>role = Assistant, content = output\<rparr>]\<rparr>) c))
      | ChatCompletionError \<Rightarrow>
          Some (enter Speaking
            (assign (\<lambda>x. x\<lparr>messages := messages x @ [\<lparr>role = Assistant, content = apology\<rparr>]\<rparr>) c))
      | _ \<Rightarrow> None)"
| "on_event Speaking ev c =
     (case ev of
        SpeakDone \<Rightarrow> Some (enter ListeningOrWaitingForKey c)
      | SpeakError \<Rightarrow> Some (enter ListeningOrWaitingForKey c)
      | _ \<Rightarrow> None)"
| "on_event End ev c =
     (case ev of
        SpeakDone \<Rightarrow>
          Some (enter LastQuestionWaitForYN
            (assign (\<lambda>x. x\<lparr>messages := messages x @ [\<lparr>role = Assistant, content = farewell\<rparr>]\<rparr>) c))
      | SpeakError \<Rightarrow> Some (enter Done c)
      | _ \<Rightarrow> None)"
| "on_event LastQuestionWaitForYN ev c =
     (case ev of
        WaitForKeyDone output \<Rightarrow>
          Some (enter ProcessYN (assign (\<lambda>x. x\<lparr>keyPressed := Some output\<rparr>) c))
      | _ \<Rightarrow> None)"
| "on_event _ ev c = None"

text \<open>
  One step of the machine: an event is taken by the active state, then eventless
  transitions run until none is enabled. A machine that has stopped takes no event.
\<close>

definition step :: "snapshot \<Rightarrow> event \<Rightarrow> snapshot" where
  "step c ev =
     (if status c \<noteq> Active then c
      else case on_event (st c) ev c of None \<Rightarrow> c | Some c' \<Rightarrow> settle c')"

definition run :: "snapshot \<Rightarrow> event list \<Rightarrow> snapshot" where
  "run c evs = foldl step c evs"

definition start :: snapshot where
  "start = settle (enter SetVoice
     \<lparr>st = SetVoice, ctx = initialContext, status = Active, trace = []\<rparr>)"

text \<open>
  The chat actor resolves with whatever \<^verbatim>\<open>fetchChatCompletion\<close> returns; the key actors
  resolve with what \<^verbatim>\<open>waitForKeypress\<close> resolves with, and deliver nothing otherwise.
\<close>

definition chatCompletion :: "exchange \<Rightarrow> event" where
  "chatCompletion x = ChatCompletionDone (fetchChatCompletion x)"



inductive reachable :: "snapshot \<Rightarrow> bool" where
  reachable_start: "reachable start"
| reachable_step: "reachable c \<Longrightarrow> reachable (step c ev)"

text \<open>
  The machine in its first listening race: both setup calls have settled and the
  introduction has been spoken.
\<close>

definition listening :: snapshot where
  "listening = run start [SetVoiceDone, AttendDone, SpeakDone]"

text \<open>
  The machine in the question before the end: the key \<^verbatim>\<open>0\<close> was pressed in the first
  listening race and the farewell has been spoken.
\<close>

definition confirming :: snapshot where
  "confirming = run listening [ListenOrKeypressDone (Keypress ''0''), SpeakDone]"

text \<open>
  The history of \<open>c'\<close> extends the history of \<open>c\<close>: it is that history with further
  messages behind it, none of them a system message.
\<close>

definition grows :: "snapshot \<Rightarrow> snapshot \<Rightarrow> bool" where
  "grows c c' \<longleftrightarrow>
     (\<exists>new. messages (ctx c') = messages (ctx c) @ new \<and> (\<forall>m \<in> set new. role m \<noteq> System))"

text \<open>
  A snapshot is sound when its history is not empty and the machine has not stopped with
  an error.
\<close>

definition sound :: "snapshot \<Rightarrow> bool" where
  "sound c \<longleftrightarrow> messages (ctx c) \<noteq> [] \<and> status c \<noteq> Error"

section \<open>Evaluating the machine\<close>

lemma settle_None: "always c = None \<Longrightarrow> settle c = c"
  by simp

lemma settle_Some: "always c = Some c' \<Longrightarrow> settle c = settle c'"
  by simp

declare settle.simps [simp del]

subsection \<open>Unfolding the interpreter\<close>

lemmas machine =
  enter_def invoke_def assign_def always_def select_def take_transition_def goto_def
  step_def settle.simps speakLastMessage_def lastMessage_def

lemmas guards =
  isQuitKey_def isDiscussKey_def isListMessagesKey_def isManipulationKey_def
  isYesKey_def isNoKey_def manipulationKeys_def
  ProcessKeypress_guarded_def ProcessKeypress_default_def ProcessYN_always_def

subsection \<open>Joining\<close>

lemma append_single: "(@) [c] = (#) c"
  by (rule ext) simp

lemma join_loop_concat: "join_loop sep R xs = R @ concat (map (\<lambda>g. sep @ g) xs)"
  by (induction xs arbitrary: R) simp_all

lemma join_Cons: "join (f # fs) sep = f @ concat (map (\<lambda>g. sep @ g) fs)"
  by (simp add: join_def join_loop_concat)

subsection \<open>Steps of the listening race\<close>

lemma listening_eval:
  "listening =
     \<lparr>st = ListeningOrWaitingForKey, ctx = initialContext\<lparr>isFirstMessage := False\<rparr>,
      status = Active,
      trace = [InvokeSetVoice, InvokeAttend, InvokeSpeak introduction True,
               InvokeListenOrKeypress]\<rparr>"
  by (simp add: listening_def run_def start_def machine initialContext_def)

lemma step_speech:
  assumes "status c = Active" and "st c = ListeningOrWaitingForKey"
  shows "step c (ListenOrKeypressDone (Speech u)) =
     c\<lparr>ctx := (ctx c)\<lparr>lastResult := sanitizeUtterance u,
                userSpeechBuffer := userSpeechBuffer (ctx c) @ [sanitizeUtterance u],
                keyPressed := None\<rparr>,
       trace := trace c @ [InvokeListenOrKeypress]\<rparr>"
  using assms by (simp add: machine onListenOrKeypress_def Let_def)

lemma step_discuss:
  assumes "status c = Active" and "st c = ListeningOrWaitingForKey"
    and "userSpeechBuffer (ctx c) = []"
  shows "step c (ListenOrKeypressDone (Keypress ''l'')) =
     c\<lparr>st := ProcessingResponse, ctx := (ctx c)\<lparr>keyPressed := Some ''l''\<rparr>,
       trace := trace c @ [InvokeChatCompletion (messages (ctx c))]\<rparr>"
  using assms by (simp add: machine guards onListenOrKeypress_def)

lemmas dispatch =
  machine guards onListenOrKeypress_def commitSpeech_def join_Cons append_single

lemma run_stuck: "st c = ProcessYN \<Longrightarrow> run c evs = c"
  by (induction evs) (simp_all add: run_def step_def)

subsection \<open>Searching for the marker\<close>

lemma startsWith_iff: "startsWith s t \<longleftrightarrow> (\<exists>post. s = t @ post)"
  by (induction s t rule: startsWith.induct) auto

lemma includes_str_iff: "includes_str s t \<longleftrightarrow> (\<exists>pre post. s = pre @ t @ post)"
proof (induction s)
  case Nil
  then show ?case by auto
next
  case (Cons a s)
  show ?case
  proof
    assume "includes_str (a # s) t"
    then consider "startsWith (a # s) t" | "includes_str s t" by auto
    then show "\<exists>pre post. a # s = pre @ t @ post"
    proof cases
      case 1
      then obtain post where "a # s = t @ post" by (auto simp: startsWith_iff)
      then have "a # s = [] @ t @ post" by simp
      then show ?thesis by blast
    next
      case 2
      then obtain pre post where "s = pre @ t @ post" using Cons.IH by auto
      then have "a # s = (a # pre) @ t @ post" by simp
      then show ?thesis by blast
    qed
  next
    assume "\<exists>pre post. a # s = pre @ t @ post"
    then obtain pre post where e: "a # s = pre @ t @ post" by auto
    show "includes_str (a # s) t"
    proof (cases pre)
      case Nil
      with e have "startsWith (a # s) t" by (auto simp: startsWith_iff)
      then show ?thesis by simp
    next
      case (Cons b pre')
      with e have "s = pre' @ t @ post" by simp
      then have "includes_str s t" using Cons.IH by auto
      then show ?thesis by simp
    qed
  qed
qed

lemma includes_toLowerCase_iff:
  "includes_str (toLowerCase u) t \<longleftrightarrow>
     (\<exists>pre m post. u = pre @ m @ post \<and> toLowerCase m = t)"
proof
  assume "includes_str (toLowerCase u) t"
  then obtain p q where "map toLowerChar u = p @ t @ q"
    by (auto simp: includes_str_iff toLowerCase_def)
  then obtain pre r where u: "u = pre @ r" and r: "t @ q = map toLowerChar r"
    unfolding map_eq_append_conv by blast
  from r [symmetric] obtain m post where "r = m @ post" and "map toLowerChar m = t"
    unfolding map_eq_append_conv by blast
  with u have "u = pre @ m @ post \<and> toLowerCase m = t"
    by (simp add: toLowerCase_def)
  then show "\<exists>pre m post. u = pre @ m @ post \<and> toLowerCase m = t" by blast
next
  assume "\<exists>pre m post. u = pre @ m @ post \<and> toLowerCase m = t"
  then obtain pre m post where "u = pre @ m @ post" and "toLowerCase m = t" by auto
  then have "toLowerCase u = toLowerCase pre @ t @ toLowerCase post"
    by (auto simp: toLowerCase_def)
  then show "includes_str (toLowerCase u) t"
    unfolding includes_str_iff by blast
qed

lemma sanitize_NOMATCH: "sanitizeUtterance ''NOMATCH'' = ''...''"
  by (simp add: sanitizeUtterance_def toLowerCase_def toLowerChar_def upperCase_def lowerCase_def)

lemma sanitize_NoMatch_foo: "sanitizeUtterance ''NoMatch foo'' = ''...''"
  by (simp add: sanitizeUtterance_def toLowerCase_def toLowerChar_def upperCase_def lowerCase_def)

lemma sanitize_plain: "sanitizeUtterance ''I think the doctor'' = ''I think the doctor''"
  by (simp add: sanitizeUtterance_def toLowerCase_def toLowerChar_def upperCase_def lowerCase_def)

subsection \<open>What a keypress appends to the history\<close>

lemma step_keypress_messages:
  assumes "status c = Active" and "st c = ListeningOrWaitingForKey"
  shows "messages (ctx (step c (ListenOrKeypressDone (Keypress k)))) =
     messages (ctx c) @
       (case userSpeechBuffer (ctx c) of
          [] \<Rightarrow> []
        | f # fs \<Rightarrow> [\<lparr>role = User, content = join (f # fs) '' ''\<rparr>]) @
       (case manipulations k of None \<Rightarrow> [] | Some p \<Rightarrow> [\<lparr>role = Assistant, content = p\<rparr>])"
proof -
  consider "k = ''0''" | "k = ''l''" | "k = ''m''" | "k \<in> set manipulationKeys"
    | "k \<noteq> ''0''" "k \<noteq> ''l''" "k \<noteq> ''m''" "k \<notin> set manipulationKeys"
    by blast
  then show ?thesis
  proof cases
    case 1
    with assms show ?thesis
      by (cases "userSpeechBuffer (ctx c)")
         (simp_all add: machine guards onListenOrKeypress_def commitSpeech_def manipulations_def)
  next
    case 2
    with assms show ?thesis
      by (cases "userSpeechBuffer (ctx c)")
         (simp_all add: machine guards onListenOrKeypress_def commitSpeech_def manipulations_def)
  next
    case 3
    with assms show ?thesis
      by (cases "userSpeechBuffer (ctx c)")
         (simp_all add: machine guards onListenOrKeypress_def commitSpeech_def manipulations_def)
  next
    case 4
    with assms show ?thesis
      by (cases "userSpeechBuffer (ctx c)")
         (auto simp: machine guards onListenOrKeypress_def commitSpeech_def manipulations_def)
  next
    case 5
    with assms show ?thesis
      by (cases "userSpeechBuffer (ctx c)")
         (simp_all add: machine guards onListenOrKeypress_def commitSpeech_def manipulations_def)
  qed
qed

lemma step_keypress_buffer:
  assumes "status c = Active" and "st c = ListeningOrWaitingForKey"
  shows "userSpeechBuffer (ctx (step c (ListenOrKeypressDone (Keypress k)))) = []"
proof -
  consider "k = ''0''" | "k = ''l''" | "k = ''m''" | "k \<in> set manipulationKeys"
    | "k \<noteq> ''0''" "k \<noteq> ''l''" "k \<noteq> ''m''" "k \<notin> set manipulationKeys"
    by blast
  then show ?thesis
  proof cases
    case 1
    with assms show ?thesis
      by (cases "userSpeechBuffer (ctx c)")
         (simp_all add: machine guards onListenOrKeypress_def commitSpeech_def)
  next
    case 2
    with assms show ?thesis
      by (cases "userSpeechBuffer (ctx c)")
         (simp_all add: machine guards onListenOrKeypress_def commitSpeech_def)
  next
    case 3
    with assms show ?thesis
      by (cases "userSpeechBuffer (ctx c)")
         (simp_all add: machine guards onListenOrKeypress_def commitSpeech_def)
  next
    case 4
    with assms show ?thesis
      by (cases "userSpeechBuffer (ctx c)")
         (auto simp: machine guards onListenOrKeypress_def commitSpeech_def manipulations_def)
  next
    case 5
    with assms show ?thesis
      by (cases "userSpeechBuffer (ctx c)")
         (simp_all add: machine guards onListenOrKeypress_def commitSpeech_def)
  qed
qed

subsection \<open>Selection among exclusive guards\<close>

lemma find_append_default:
  "find P (xs @ [d]) = (case find P xs of None \<Rightarrow> (if P d then Some d else None) | Some x \<Rightarrow> Some x)"
  by (induction xs) simp_all

lemma find_unique:
  assumes u: "\<And>a b. a \<in> set xs \<Longrightarrow> b \<in> set xs \<Longrightarrow> P a \<Longrightarrow> P b \<Longrightarrow> a = b"
    and s: "set ys = set xs"
  shows "find P ys = find P xs"
proof (cases "find P xs")
  case None
  then have "\<not> (\<exists>x. x \<in> set ys \<and> P x)" using s by (simp add: find_None_iff)
  then have "find P ys = None" by (simp add: find_None_iff)
  with None show ?thesis by simp
next
  case (Some a)
  then have a: "a \<in> set xs" "P a"
    by (auto simp: find_Some_iff)
  then have "\<exists>x. x \<in> set ys \<and> P x" using s by auto
  then obtain b where b: "find P ys = Some b"
    by (cases "find P ys") (auto simp: find_None_iff)
  then have "b \<in> set xs" "P b" using s
    by (auto simp: find_Some_iff)
  with a u [of a b] have "a = b" by blast
  with Some b show ?thesis by simp
qed

lemma ProcessKeypress_guarded_exclusive:
  assumes "a \<in> set ProcessKeypress_guarded" and "b \<in> set ProcessKeypress_guarded"
    and "guard a x" and "guard b x"
  shows "a = b"
  using assms by (auto simp: guards goto_def)

lemma ProcessYN_exclusive:
  assumes "a \<in> set ProcessYN_always" and "b \<in> set ProcessYN_always"
    and "guard a x" and "guard b x"
  shows "a = b"
  using assms by (auto simp: guards goto_def)

lemma dom_manipulations: "dom manipulations = set manipulationKeys"
  by (auto simp: manipulations_def manipulationKeys_def dom_def split: if_splits)

lemma card_manipulationKeys: "card (set manipulationKeys) = 12"
  by (simp add: manipulationKeys_def)

lemma inj_manipulations: "inj_on manipulations (set manipulationKeys)"
  by (simp add: manipulations_def manipulationKeys_def)

subsection \<open>Lower case\<close>









lemma toLowerChar_eq_letter:
  "toLowerChar ch = CHR ''n'' \<longleftrightarrow> ch = CHR ''n'' \<or> ch = CHR ''N''"
  "toLowerChar ch = CHR ''o'' \<longleftrightarrow> ch = CHR ''o'' \<or> ch = CHR ''O''"
  "toLowerChar ch = CHR ''m'' \<longleftrightarrow> ch = CHR ''m'' \<or> ch = CHR ''M''"
  "toLowerChar ch = CHR ''a'' \<longleftrightarrow> ch = CHR ''a'' \<or> ch = CHR ''A''"
  "toLowerChar ch = CHR ''t'' \<longleftrightarrow> ch = CHR ''t'' \<or> ch = CHR ''T''"
  "toLowerChar ch = CHR ''c'' \<longleftrightarrow> ch = CHR ''c'' \<or> ch = CHR ''C''"
  "toLowerChar ch = CHR ''h'' \<longleftrightarrow> ch = CHR ''h'' \<or> ch = CHR ''H''"
  by (auto simp: toLowerChar_def upperCase_def lowerCase_def)

lemma nomatch_variants:
  "toLowerCase m = ''nomatch'' \<longleftrightarrow>
     list_all2 (\<lambda>ch p. ch = fst p \<or> ch = snd p) m
       [(CHR ''n'', CHR ''N''), (CHR ''o'', CHR ''O''), (CHR ''m'', CHR ''M''),
        (CHR ''a'', CHR ''A''), (CHR ''t'', CHR ''T''), (CHR ''c'', CHR ''C''),
        (CHR ''h'', CHR ''H'')]"
  (is "_ \<longleftrightarrow> list_all2 ?R m ?ps")
proof -
  have p: "toLowerChar ch = fst q \<longleftrightarrow> ?R ch q" if "q \<in> set ?ps" for ch q
    using that by (auto simp: toLowerChar_eq_letter)
  have "toLowerCase m = ''nomatch'' \<longleftrightarrow> list_all2 (=) (map toLowerChar m) (map fst ?ps)"
    by (simp add: toLowerCase_def list.rel_eq)
  also have "\<dots> \<longleftrightarrow> list_all2 (\<lambda>ch q. toLowerChar ch = fst q) m ?ps"
    by (simp only: list_all2_map1 list_all2_map2)
  also have "\<dots> \<longleftrightarrow> list_all2 ?R m ?ps"
  proof
    assume "list_all2 (\<lambda>ch q. toLowerChar ch = fst q) m ?ps"
    then show "list_all2 ?R m ?ps"
      by (rule list.rel_mono_strong) (simp only: p)
  next
    assume "list_all2 ?R m ?ps"
    then show "list_all2 (\<lambda>ch q. toLowerChar ch = fst q) m ?ps"
      by (rule list.rel_mono_strong) (simp only: p)
  qed
  finally show ?thesis .
qed



subsection \<open>The history along the transitions\<close>

lemma grows_refl: "grows c c"
  by (simp add: grows_def)

lemma grows_trans: "grows a b \<Longrightarrow> grows b c \<Longrightarrow> grows a c"
  unfolding grows_def by (metis Un_iff append.assoc set_append)

lemma grows_entry: "grows c (entry s c)"
  by (cases s)
     (auto simp: grows_def invoke_def speakLastMessage_def split: option.splits)

lemma grows_enter: "grows c d \<Longrightarrow> grows c (enter s d)"
proof -
  assume "grows c d"
  moreover have "grows d (d\<lparr>st := s\<rparr>)" by (simp add: grows_def)
  moreover have "grows (d\<lparr>st := s\<rparr>) (enter s d)"
    unfolding enter_def by (rule grows_entry)
  ultimately show ?thesis by (blast intro: grows_trans)
qed

lemma grows_ctx: "grows (c\<lparr>ctx := x\<rparr>) d \<Longrightarrow> messages x = messages (ctx c) \<Longrightarrow> grows c d"
  by (simp add: grows_def)

lemma grows_ctx_append:
  "grows (c\<lparr>ctx := x\<rparr>) d \<Longrightarrow> messages x = messages (ctx c) @ [m] \<Longrightarrow> role m \<noteq> System \<Longrightarrow>
   grows c d"
  by (auto simp: grows_def)

lemma grows_on_event: "on_event s ev c = Some c' \<Longrightarrow> grows c c'"
proof -
  have e: "grows (c\<lparr>ctx := x\<rparr>) (enter s' (c\<lparr>ctx := x\<rparr>))" for x s'
    by (rule grows_enter) (rule grows_refl)
  have e': "grows c (enter s' c)" for s'
    by (rule grows_enter) (rule grows_refl)
  assume "on_event s ev c = Some c'"
  then show ?thesis
    by (cases s; cases ev)
       (auto simp: assign_def onListenOrKeypress_def Let_def grows_refl e'
          split: race_result.splits
          intro: grows_ctx [OF e] grows_ctx_append [OF e])
qed

lemma grows_transition:
  assumes "t \<in> set (always_transitions s)"
  shows "grows c (c\<lparr>ctx := assigns t (ctx c), trace := trace c @ logs t\<rparr>)"
  using assms
  by (cases s) (auto simp: grows_def goto_def guards commitSpeech_def Let_def)

lemma grows_always: "always c = Some c' \<Longrightarrow> grows c c'"
proof -
  assume "always c = Some c'"
  then obtain t where f: "select (always_transitions (st c)) (ctx c) = Some t"
    and c': "c' = take_transition t c"
    by (auto simp: always_def split: if_splits)
  from f have "t \<in> set (always_transitions (st c))"
    by (auto simp: select_def find_Some_iff)
  then have "grows c (c\<lparr>ctx := assigns t (ctx c), trace := trace c @ logs t\<rparr>)"
    by (rule grows_transition)
  then show ?thesis
    unfolding c' take_transition_def by (rule grows_enter)
qed

lemma grows_settle: "grows c (settle c)"
proof (induction c rule: settle.induct)
  case (1 c)
  show ?case
  proof (cases "always c")
    case None
    then show ?thesis by (simp add: settle.simps grows_refl)
  next
    case (Some c')
    then have "grows c c'" by (rule grows_always)
    moreover have "grows c' (settle c')" using Some by (rule "1.IH")
    ultimately have "grows c (settle c')" by (rule grows_trans)
    with Some show ?thesis by (simp add: settle.simps)
  qed
qed

lemma grows_step: "grows c (step c ev)"
proof (cases "status c \<noteq> Active \<or> on_event (st c) ev c = None")
  case True
  then show ?thesis by (auto simp: step_def grows_refl)
next
  case False
  then obtain c' where c': "on_event (st c) ev c = Some c'" and a: "status c = Active"
    by auto
  then have "step c ev = settle c'" by (simp add: step_def)
  moreover have "grows c c'" using c' by (rule grows_on_event)
  moreover have "grows c' (settle c')" by (rule grows_settle)
  ultimately show ?thesis by (auto intro: grows_trans)
qed

lemma grows_start: "grows \<lparr>st = SetVoice, ctx = initialContext, status = Active, trace = []\<rparr> start"
  unfolding start_def by (intro grows_trans [OF _ grows_settle] grows_enter grows_refl)

lemma reachable_grows:
  "reachable c \<Longrightarrow> grows \<lparr>st = SetVoice, ctx = initialContext, status = Active, trace = []\<rparr> c"
proof (induction rule: reachable.induct)
  case reachable_start
  show ?case by (rule grows_start)
next
  case (reachable_step c ev)
  then show ?case by (blast intro: grows_trans grows_step)
qed

lemma reachable_run: "reachable c \<Longrightarrow> reachable (run c evs)"
  unfolding run_def by (induction evs arbitrary: c) (auto intro: reachable_step)

subsection \<open>No reachable snapshot has stopped with an error\<close>

text \<open>
  The two ways into the status \<open>Error\<close> are closed in every run: the history is never
  empty when its last message is read, and \<^verbatim>\<open>AddManipulation\<close> is entered only behind its
  guard, under which the table has a phrase for the key.
\<close>

lemma manipulations_defined:
  "isManipulationKey x \<Longrightarrow>
   manipulations (case keyPressed x of None \<Rightarrow> [] | Some k \<Rightarrow> k) \<noteq> None"
  by (cases "keyPressed x") (auto simp: isManipulationKey_def manipulationKeys_def manipulations_def)

lemma sound_entry:
  assumes "sound c" and "s = AddManipulation \<Longrightarrow> isManipulationKey (ctx c)"
  shows "sound (entry s c)"
proof (cases "s = AddManipulation")
  case True
  with assms(2) have "isManipulationKey (ctx c)" by simp
  then obtain p where "manipulations (case keyPressed (ctx c) of None \<Rightarrow> [] | Some k \<Rightarrow> k) = Some p"
    using manipulations_defined by blast
  with True assms(1) show ?thesis by (simp add: sound_def)
next
  case False
  with assms(1) show ?thesis
    by (cases s)
       (auto simp: sound_def invoke_def speakLastMessage_def lastMessage_def split: option.splits)
qed

lemma sound_enter:
  assumes "sound c" and "s = AddManipulation \<Longrightarrow> isManipulationKey (ctx c)"
  shows "sound (enter s c)"
  unfolding enter_def using assms by (intro sound_entry) (simp_all add: sound_def)

lemma sound_on_event:
  assumes "sound c" and "on_event s ev c = Some c'"
  shows "sound c'"
proof -
  have e: "sound d \<Longrightarrow> s' \<noteq> AddManipulation \<Longrightarrow> sound (enter s' d)" for d s'
    by (rule sound_enter) simp_all
  have m: "messages (ctx c) \<noteq> []"
    using assms(1) by (simp add: sound_def)
  have a: "sound (assign f c)" if "messages (f (ctx c)) \<noteq> []" for f
    using assms(1) that by (simp add: sound_def assign_def)
  from assms show ?thesis
    by (cases s; cases ev)
       (auto intro!: e a simp: m onListenOrKeypress_def Let_def split: race_result.splits)
qed

lemma sound_always:
  assumes "sound c" and "always c = Some c'"
  shows "sound c'"
proof -
  from assms(2) obtain t where f: "select (always_transitions (st c)) (ctx c) = Some t"
    and c': "c' = take_transition t c"
    by (auto simp: always_def split: if_splits)
  from f have t: "t \<in> set (always_transitions (st c))" and g: "guard t (ctx c)"
    by (auto simp: select_def find_Some_iff)
  from t assms(1) have 1: "sound (c\<lparr>ctx := assigns t (ctx c), trace := trace c @ logs t\<rparr>)"
    by (cases "st c") (auto simp: sound_def goto_def guards commitSpeech_def Let_def)
  from t g have 2: "target t = AddManipulation \<Longrightarrow> isManipulationKey (assigns t (ctx c))"
    by (cases "st c") (auto simp: goto_def guards commitSpeech_def Let_def)
  from 1 2 show ?thesis
    unfolding c' take_transition_def by (intro sound_enter) simp_all
qed

lemma sound_settle: "sound c \<Longrightarrow> sound (settle c)"
proof (induction c rule: settle.induct)
  case (1 c)
  show ?case
  proof (cases "always c")
    case None
    with "1.prems" show ?thesis by (simp add: settle.simps)
  next
    case (Some c')
    with "1.prems" have "sound c'" by (blast intro: sound_always)
    with Some have "sound (settle c')" by (rule "1.IH")
    with Some show ?thesis by (simp add: settle.simps)
  qed
qed

lemma sound_step:
  assumes "sound c"
  shows "sound (step c ev)"
proof (cases "status c \<noteq> Active \<or> on_event (st c) ev c = None")
  case True
  with assms show ?thesis by (auto simp: step_def)
next
  case False
  then obtain c' where c': "on_event (st c) ev c = Some c'" and a: "status c = Active"
    by auto
  from assms c' have "sound c'" by (rule sound_on_event)
  then have "sound (settle c')" by (rule sound_settle)
  with c' a show ?thesis by (simp add: step_def)
qed

lemma reachable_sound: "reachable c \<Longrightarrow> sound c"
proof (induction rule: reachable.induct)
  case reachable_start
  show ?case
    unfolding start_def
    by (intro sound_settle sound_enter) (simp_all add: sound_def initialContext_def)
next
  case (reachable_step c ev)
  from reachable_step.IH show ?case by (rule sound_step)
qed

lemma reachable_no_error: "reachable c \<Longrightarrow> status c \<noteq> Error"
  using reachable_sound by (simp add: sound_def)

section \<open>The commit of the speech buffer\<close>

text \<open>
  Claim C1. The commit step is the eventless transition out of
  \<^verbatim>\<open>ProcessAccumulatedSpeech\<close>, the state a keypress leads to. It always fires and leads to
  \<^verbatim>\<open>ProcessKeypress\<close> with the buffer empty and nothing added to the trace. When the buffer
  holds the fragments \<open>f # fs\<close>, the context changes in exactly two fields: the history
  gains one user message whose content is \<open>f\<close> followed by each later fragment behind a
  single space, in the order of arrival, and the buffer becomes empty. When the buffer is
  empty the context is unchanged. Seen from the listening race: after the step that a
  keypress causes, whatever the key, the buffer is empty and the history is the old
  history, then that one user message if the buffer held fragments, then the phrase of the
  key if it is a manipulation key, and nothing else.
\<close>

theorem commit_joins_fragments:
  assumes "status c = Active" and "st c = ProcessAccumulatedSpeech"
    and "status d = Active" and "st d = ListeningOrWaitingForKey"
  shows "(\<exists>c'. always c = Some c' \<and> st c' = ProcessKeypress \<and> status c' = Active \<and>
          trace c' = trace c \<and> userSpeechBuffer (ctx c') = [] \<and>
          (case userSpeechBuffer (ctx c) of
             [] \<Rightarrow> ctx c' = ctx c
           | f # fs \<Rightarrow>
               ctx c' = (ctx c)\<lparr>messages := messages (ctx c) @
                 [\<lparr>role = User, content = f @ concat (map (\<lambda>g. '' '' @ g) fs)\<rparr>],
                 userSpeechBuffer := []\<rparr>)) \<and>
         userSpeechBuffer (ctx (step d (ListenOrKeypressDone (Keypress k)))) = [] \<and>
         messages (ctx (step d (ListenOrKeypressDone (Keypress k)))) =
           messages (ctx d) @
           (case userSpeechBuffer (ctx d) of
              [] \<Rightarrow> []
            | f # fs \<Rightarrow> [\<lparr>role = User, content = f @ concat (map (\<lambda>g. '' '' @ g) fs)\<rparr>]) @
           (case manipulations k of None \<Rightarrow> [] | Some p \<Rightarrow> [\<lparr>role = Assistant, content = p\<rparr>])"
proof -
  have 1: "\<exists>c'. always c = Some c' \<and> st c' = ProcessKeypress \<and> status c' = Active \<and>
          trace c' = trace c \<and> userSpeechBuffer (ctx c') = [] \<and>
          (case userSpeechBuffer (ctx c) of
             [] \<Rightarrow> ctx c' = ctx c
           | f # fs \<Rightarrow>
               ctx c' = (ctx c)\<lparr>messages := messages (ctx c) @
                 [\<lparr>role = User, content = f @ concat (map (\<lambda>g. '' '' @ g) fs)\<rparr>],
                 userSpeechBuffer := []\<rparr>)"
    using assms(1,2)
    by (cases "userSpeechBuffer (ctx c)")
       (simp_all add: machine commitSpeech_def join_Cons append_single)
  have 2: "userSpeechBuffer (ctx (step d (ListenOrKeypressDone (Keypress k)))) = []"
    using assms(3,4) by (rule step_keypress_buffer)
  have 3: "messages (ctx (step d (ListenOrKeypressDone (Keypress k)))) =
           messages (ctx d) @
           (case userSpeechBuffer (ctx d) of
              [] \<Rightarrow> []
            | f # fs \<Rightarrow> [\<lparr>role = User, content = f @ concat (map (\<lambda>g. '' '' @ g) fs)\<rparr>]) @
           (case manipulations k of None \<Rightarrow> [] | Some p \<Rightarrow> [\<lparr>role = Assistant, content = p\<rparr>])"
    using step_keypress_messages [OF assms(3,4), of k]
    by (cases "userSpeechBuffer (ctx d)") (simp_all add: join_Cons append_single)
  from 1 2 3 show ?thesis by blast
qed

theorem commit_joins_fragments_witness:
  "(\<exists>c'. always \<lparr>st = ProcessAccumulatedSpeech,
            ctx = initialContext\<lparr>keyPressed := Some ''l'',
                    userSpeechBuffer := [''I think the doctor'', ''...'']\<rparr>,
            status = Active, trace = []\<rparr> = Some c' \<and>
        messages (ctx c') = messages initialContext @
          [\<lparr>role = User, content = ''I think the doctor ...''\<rparr>] \<and>
        userSpeechBuffer (ctx c') = []) \<and>
   messages (ctx (run listening [ListenOrKeypressDone (Speech ''I think the doctor''),
       ListenOrKeypressDone (Speech ''NOMATCH''), ListenOrKeypressDone (Keypress ''l'')])) =
     messages initialContext @ [\<lparr>role = User, content = ''I think the doctor ...''\<rparr>] \<and>
   userSpeechBuffer (ctx (run listening [ListenOrKeypressDone (Speech ''I think the doctor''),
       ListenOrKeypressDone (Speech ''NOMATCH''), ListenOrKeypressDone (Keypress ''l'')])) = []"
proof -
  let ?c = "\<lparr>st = ProcessAccumulatedSpeech,
            ctx = initialContext\<lparr>keyPressed := Some ''l'',
                    userSpeechBuffer := [''I think the doctor'', ''...'']\<rparr>,
            status = Active, trace = []\<rparr>"
  let ?d = "run listening [ListenOrKeypressDone (Speech ''I think the doctor''),
       ListenOrKeypressDone (Speech ''NOMATCH'')]"
  have d: "?d = listening\<lparr>ctx := (ctx listening)\<lparr>lastResult := ''...'',
                userSpeechBuffer := [''I think the doctor'', ''...''],
                keyPressed := None\<rparr>,
       trace := trace listening @ [InvokeListenOrKeypress, InvokeListenOrKeypress]\<rparr>"
    by (simp add: run_def step_speech listening_eval sanitize_NOMATCH sanitize_plain
        initialContext_def)
  have r: "run listening [ListenOrKeypressDone (Speech ''I think the doctor''),
       ListenOrKeypressDone (Speech ''NOMATCH''), ListenOrKeypressDone (Keypress ''l'')] =
       step ?d (ListenOrKeypressDone (Keypress ''l''))"
    by (simp add: run_def)
  have "status ?c = Active" and "st ?c = ProcessAccumulatedSpeech"
    and "status ?d = Active" and "st ?d = ListeningOrWaitingForKey"
    unfolding d by (simp_all add: listening_eval)
  from commit_joins_fragments [OF this, of "''l''"] show ?thesis
    unfolding r unfolding d
    by (auto simp: manipulations_def listening_eval initialContext_def)
qed

section \<open>Keys that select no action\<close>

text \<open>
  Claim C2, as the code has it. A key that passes none of the four guards of
  \<^verbatim>\<open>ProcessKeypress\<close> (the keys \<^verbatim>\<open>y\<close> and \<^verbatim>\<open>n\<close> are among them) brings the machine
  back to the listening race with the notice for an unknown key. On the way the key is
  stored in \<^verbatim>\<open>keyPressed\<close> and the buffer is committed as for every other key: with an
  empty buffer the history and the buffer are as before the keypress; with fragments in
  the buffer the history gains the one user message made of them and the buffer is
  emptied. No other field changes.
\<close>

theorem unknown_key_commits_only:
  assumes "status c = Active" and "st c = ListeningOrWaitingForKey"
    and "\<not> isQuitKey ((ctx c)\<lparr>keyPressed := Some k\<rparr>)"
    and "\<not> isDiscussKey ((ctx c)\<lparr>keyPressed := Some k\<rparr>)"
    and "\<not> isListMessagesKey ((ctx c)\<lparr>keyPressed := Some k\<rparr>)"
    and "\<not> isManipulationKey ((ctx c)\<lparr>keyPressed := Some k\<rparr>)"
  shows "st (step c (ListenOrKeypressDone (Keypress k))) = ListeningOrWaitingForKey \<and>
         status (step c (ListenOrKeypressDone (Keypress k))) = Active \<and>
         trace (step c (ListenOrKeypressDone (Keypress k))) =
           trace c @ [UnknownKeyNotice, InvokeListenOrKeypress] \<and>
         ctx (step c (ListenOrKeypressDone (Keypress k))) =
           (case userSpeechBuffer (ctx c) of
              [] \<Rightarrow> (ctx c)\<lparr>keyPressed := Some k\<rparr>
            | f # fs \<Rightarrow>
                (ctx c)\<lparr>messages := messages (ctx c) @
                    [\<lparr>role = User, content = f @ concat (map (\<lambda>g. '' '' @ g) fs)\<rparr>],
                  keyPressed := Some k, userSpeechBuffer := []\<rparr>)"
  using assms
  by (cases "userSpeechBuffer (ctx c)")
     (simp_all add: machine guards onListenOrKeypress_def commitSpeech_def join_Cons
        append_single)

theorem unknown_key_commits_only_witness:
  "st (step listening (ListenOrKeypressDone (Keypress ''x''))) = ListeningOrWaitingForKey \<and>
   messages (ctx (step listening (ListenOrKeypressDone (Keypress ''x'')))) =
     messages (ctx listening) \<and>
   userSpeechBuffer (ctx (step listening (ListenOrKeypressDone (Keypress ''x'')))) =
     userSpeechBuffer (ctx listening) \<and>
   keyPressed (ctx (step listening (ListenOrKeypressDone (Keypress ''x'')))) = Some ''x'' \<and>
   trace (step listening (ListenOrKeypressDone (Keypress ''x''))) =
     trace listening @ [UnknownKeyNotice, InvokeListenOrKeypress]"
  using unknown_key_commits_only [of listening "''x''"]
  by (simp add: listening_eval guards initialContext_def)

text \<open>
  The claim as stated fails when speech has been buffered: after the utterance
  \<^verbatim>\<open>hello\<close>, the key \<^verbatim>\<open>x\<close> selects the default transition of \<^verbatim>\<open>ProcessKeypress\<close>, and
  both the history and the buffer differ from what they were before the keypress.
\<close>

theorem unknown_key_counterexample:
  "st (step listening (ListenOrKeypressDone (Speech ''hello''))) = ListeningOrWaitingForKey \<and>
   st (step (step listening (ListenOrKeypressDone (Speech ''hello'')))
        (ListenOrKeypressDone (Keypress ''x''))) = ListeningOrWaitingForKey \<and>
   keyPressed (ctx (step (step listening (ListenOrKeypressDone (Speech ''hello'')))
        (ListenOrKeypressDone (Keypress ''x'')))) = Some ''x'' \<and>
   select (always_transitions ProcessKeypress)
     (ctx (step (step listening (ListenOrKeypressDone (Speech ''hello'')))
        (ListenOrKeypressDone (Keypress ''x'')))) = Some ProcessKeypress_default \<and>
   messages (ctx (step (step listening (ListenOrKeypressDone (Speech ''hello'')))
        (ListenOrKeypressDone (Keypress ''x'')))) \<noteq>
     messages (ctx (step listening (ListenOrKeypressDone (Speech ''hello'')))) \<and>
   userSpeechBuffer (ctx (step (step listening (ListenOrKeypressDone (Speech ''hello'')))
        (ListenOrKeypressDone (Keypress ''x'')))) \<noteq>
     userSpeechBuffer (ctx (step listening (ListenOrKeypressDone (Speech ''hello''))))"
  by (simp add: listening_eval machine guards onListenOrKeypress_def commitSpeech_def
      Let_def initialContext_def sanitizeUtterance_def toLowerCase_def toLowerChar_def
      upperCase_def lowerCase_def)

section \<open>A failing call of the language model\<close>

text \<open>
  Claim C3, as the code has it. In \<^verbatim>\<open>ProcessingResponse\<close>, for every context:
  when the HTTP exchange fails in any of its ways, \<^verbatim>\<open>fetchChatCompletion\<close> returns its
  fixed connection text, so the actor resolves and the history gains exactly one assistant
  message holding that text; when the actor itself rejects, the history gains exactly one
  assistant message holding the apology. Either way nothing else in the context changes,
  the machine is in \<^verbatim>\<open>Speaking\<close> with that text handed to the speech actor, and after
  the speech actor settles (done or error) the machine is back in the listening race:
  the trace shows the speech call and the new race, and no further call of the language
  model.
\<close>

theorem llm_failure_substitutes_fixed_turn:
  assumes "status c = Active" and "st c = ProcessingResponse"
    and "\<forall>reply. x \<noteq> Reply reply"
    and "ev = SpeakDone \<or> ev = SpeakError"
  shows "step c (chatCompletion x) =
           c\<lparr>st := Speaking,
             ctx := (ctx c)\<lparr>messages := messages (ctx c) @
                      [\<lparr>role = Assistant, content = connectionErrorText\<rparr>]\<rparr>,
             trace := trace c @ [InvokeSpeak connectionErrorText False]\<rparr> \<and>
         step (step c (chatCompletion x)) ev =
           c\<lparr>st := ListeningOrWaitingForKey,
             ctx := (ctx c)\<lparr>messages := messages (ctx c) @
                      [\<lparr>role = Assistant, content = connectionErrorText\<rparr>]\<rparr>,
             trace := trace c @ [InvokeSpeak connectionErrorText False,
                                 InvokeListenOrKeypress]\<rparr> \<and>
         step c ChatCompletionError =
           c\<lparr>st := Speaking,
             ctx := (ctx c)\<lparr>messages := messages (ctx c) @
                      [\<lparr>role = Assistant, content = apology\<rparr>]\<rparr>,
             trace := trace c @ [InvokeSpeak apology False]\<rparr> \<and>
         step (step c ChatCompletionError) ev =
           c\<lparr>st := ListeningOrWaitingForKey,
             ctx := (ctx c)\<lparr>messages := messages (ctx c) @
                      [\<lparr>role = Assistant, content = apology\<rparr>]\<rparr>,
             trace := trace c @ [InvokeSpeak apology False, InvokeListenOrKeypress]\<rparr>"
proof -
  from assms(3) have x: "fetchChatCompletion x = connectionErrorText"
    by (cases x) simp_all
  from assms(4) show ?thesis
    using assms(1,2) by (auto simp: machine chatCompletion_def x)
qed

theorem llm_failure_substitutes_fixed_turn_witness:
  "messages (ctx (step (step listening (ListenOrKeypressDone (Keypress ''l'')))
      (chatCompletion (StatusNotOk 500)))) =
     messages initialContext @ [\<lparr>role = Assistant, content = connectionErrorText\<rparr>] \<and>
   trace (step (step (step listening (ListenOrKeypressDone (Keypress ''l'')))
      (chatCompletion (StatusNotOk 500))) SpeakDone) =
     trace listening @ [InvokeChatCompletion (messages initialContext),
       InvokeSpeak connectionErrorText False, InvokeListenOrKeypress] \<and>
   messages (ctx (step (step listening (ListenOrKeypressDone (Keypress ''l'')))
      ChatCompletionError)) =
     messages initialContext @ [\<lparr>role = Assistant, content = apology\<rparr>]"
proof -
  let ?c = "step listening (ListenOrKeypressDone (Keypress ''l''))"
  have c: "?c = listening\<lparr>st := ProcessingResponse,
      ctx := (ctx listening)\<lparr>keyPressed := Some ''l''\<rparr>,
      trace := trace listening @ [InvokeChatCompletion (messages (ctx listening))]\<rparr>"
    by (rule step_discuss) (simp_all add: listening_eval initialContext_def)
  have "status ?c = Active" and "st ?c = ProcessingResponse"
    unfolding c by (simp_all add: listening_eval)
  moreover have "\<forall>reply. StatusNotOk 500 \<noteq> Reply reply"
    and "SpeakDone = SpeakDone \<or> SpeakDone = SpeakError"
    by simp_all
  ultimately have t: "step ?c (chatCompletion (StatusNotOk 500)) =
           ?c\<lparr>st := Speaking,
             ctx := (ctx ?c)\<lparr>messages := messages (ctx ?c) @
                      [\<lparr>role = Assistant, content = connectionErrorText\<rparr>]\<rparr>,
             trace := trace ?c @ [InvokeSpeak connectionErrorText False]\<rparr> \<and>
         step (step ?c (chatCompletion (StatusNotOk 500))) SpeakDone =
           ?c\<lparr>st := ListeningOrWaitingForKey,
             ctx := (ctx ?c)\<lparr>messages := messages (ctx ?c) @
                      [\<lparr>role = Assistant, content = connectionErrorText\<rparr>]\<rparr>,
             trace := trace ?c @ [InvokeSpeak connectionErrorText False,
                                 InvokeListenOrKeypress]\<rparr> \<and>
         step ?c ChatCompletionError =
           ?c\<lparr>st := Speaking,
             ctx := (ctx ?c)\<lparr>messages := messages (ctx ?c) @
                      [\<lparr>role = Assistant, content = apology\<rparr>]\<rparr>,
             trace := trace ?c @ [InvokeSpeak apology False]\<rparr> \<and>
         step (step ?c ChatCompletionError) SpeakDone =
           ?c\<lparr>st := ListeningOrWaitingForKey,
             ctx := (ctx ?c)\<lparr>messages := messages (ctx ?c) @
                      [\<lparr>role = Assistant, content = apology\<rparr>]\<rparr>,
             trace := trace ?c @ [InvokeSpeak apology False, InvokeListenOrKeypress]\<rparr>"
    by (rule llm_failure_substitutes_fixed_turn)
  show ?thesis
    apply (simp only: t [THEN conjunct2, THEN conjunct1])
    apply (simp only: t [THEN conjunct1] t [THEN conjunct2, THEN conjunct2, THEN conjunct1])
    apply (simp only: c)
    apply (simp add: listening_eval initialContext_def)
    done
qed

text \<open>
  The claim as stated fails for a refused request: the message appended is the
  connection text, not the apology.
\<close>

theorem llm_failure_counterexample:
  "st (step listening (ListenOrKeypressDone (Keypress ''l''))) = ProcessingResponse \<and>
   messages (ctx (step (step listening (ListenOrKeypressDone (Keypress ''l'')))
      (chatCompletion FetchRejects))) =
     messages (ctx (step listening (ListenOrKeypressDone (Keypress ''l'')))) @
       [\<lparr>role = Assistant, content = connectionErrorText\<rparr>] \<and>
   messages (ctx (step (step listening (ListenOrKeypressDone (Keypress ''l'')))
      (chatCompletion FetchRejects))) \<noteq>
     messages (ctx (step listening (ListenOrKeypressDone (Keypress ''l'')))) @
       [\<lparr>role = Assistant, content = apology\<rparr>]"
  by (simp add: listening_eval initialContext_def machine guards onListenOrKeypress_def
      chatCompletion_def connectionErrorText_def apology_def)

section \<open>The end of the session\<close>

text \<open>
  The quit key when the farewell is delivered. From the listening race, for every context,
  the key \<^verbatim>\<open>0\<close> commits the buffer and leads to \<^verbatim>\<open>End\<close>, where the farewell is handed to
  the speech actor. When that delivery succeeds, the history gains exactly the farewell,
  as an assistant message, and the machine asks the question and waits for a key in
  \<^verbatim>\<open>LastQuestionWaitForYN\<close>; the key \<^verbatim>\<open>n\<close> then leads to \<^verbatim>\<open>Done\<close>, the machine has
  finished, the history is as it was after the farewell, and the trace ends with the exit
  of the process, with no dump of the history in it.
\<close>

lemma quit_farewell_then_no:
  assumes "status c = Active" and "st c = ListeningOrWaitingForKey"
  shows "st (step c (ListenOrKeypressDone (Keypress ''0''))) = End \<and>
         status (step c (ListenOrKeypressDone (Keypress ''0''))) = Active \<and>
         messages (ctx (step c (ListenOrKeypressDone (Keypress ''0'')))) =
           messages (ctx c) @
             (case userSpeechBuffer (ctx c) of
                [] \<Rightarrow> []
              | f # fs \<Rightarrow> [\<lparr>role = User, content = f @ concat (map (\<lambda>g. '' '' @ g) fs)\<rparr>]) \<and>
         trace (step c (ListenOrKeypressDone (Keypress ''0''))) =
           trace c @ [InvokeSpeak farewell False] \<and>
         st (step (step c (ListenOrKeypressDone (Keypress ''0''))) SpeakDone) =
           LastQuestionWaitForYN \<and>
         status (step (step c (ListenOrKeypressDone (Keypress ''0''))) SpeakDone) = Active \<and>
         messages (ctx (step (step c (ListenOrKeypressDone (Keypress ''0''))) SpeakDone)) =
           messages (ctx (step c (ListenOrKeypressDone (Keypress ''0'')))) @
             [\<lparr>role = Assistant, content = farewell\<rparr>] \<and>
         trace (step (step c (ListenOrKeypressDone (Keypress ''0''))) SpeakDone) =
           trace c @ [InvokeSpeak farewell False, PrintQuestion, InvokeWaitForKey] \<and>
         st (step (step (step c (ListenOrKeypressDone (Keypress ''0''))) SpeakDone)
              (WaitForKeyDone ''n'')) = Done \<and>
         status (step (step (step c (ListenOrKeypressDone (Keypress ''0''))) SpeakDone)
              (WaitForKeyDone ''n'')) = Finished \<and>
         messages (ctx (step (step (step c (ListenOrKeypressDone (Keypress ''0''))) SpeakDone)
              (WaitForKeyDone ''n''))) =
           messages (ctx (step c (ListenOrKeypressDone (Keypress ''0'')))) @
             [\<lparr>role = Assistant, content = farewell\<rparr>] \<and>
         trace (step (step (step c (ListenOrKeypressDone (Keypress ''0''))) SpeakDone)
              (WaitForKeyDone ''n'')) =
           trace c @ [InvokeSpeak farewell False, PrintQuestion, InvokeWaitForKey, ProcessExit]"
  using assms
  by (cases "userSpeechBuffer (ctx c)") (simp_all add: dispatch)

lemma quit_farewell_then_no_example:
  "st (step (step listening (ListenOrKeypressDone (Keypress ''0''))) SpeakDone) =
     LastQuestionWaitForYN \<and>
   messages (ctx (step (step listening (ListenOrKeypressDone (Keypress ''0''))) SpeakDone)) =
     messages initialContext @ [\<lparr>role = Assistant, content = farewell\<rparr>] \<and>
   st (step (step (step listening (ListenOrKeypressDone (Keypress ''0''))) SpeakDone)
        (WaitForKeyDone ''n'')) = Done \<and>
   trace (step (step (step listening (ListenOrKeypressDone (Keypress ''0''))) SpeakDone)
        (WaitForKeyDone ''n'')) =
     trace listening @ [InvokeSpeak farewell False, PrintQuestion, InvokeWaitForKey,
       ProcessExit]"
  using quit_farewell_then_no [of listening]
  by (simp add: listening_eval initialContext_def)

text \<open>
  Claim C4 at a failing input. The key \<^verbatim>\<open>0\<close> is pressed in the first listening race and
  the delivery of the farewell fails. The error handler of \<^verbatim>\<open>End\<close> targets \<^verbatim>\<open>Done\<close>,
  where the handler for a delivered farewell appends the farewell and targets
  \<^verbatim>\<open>LastQuestionWaitForYN\<close>: the machine has finished, the history is what it was before
  the keypress, without the farewell, the question was never asked, and the trace holds
  the speech call and the exit of the process only.
\<close>

theorem quit_farewell_failure_skips_confirmation:
  "st (step listening (ListenOrKeypressDone (Keypress ''0''))) = End \<and>
   st (step (step listening (ListenOrKeypressDone (Keypress ''0''))) SpeakError) = Done \<and>
   status (step (step listening (ListenOrKeypressDone (Keypress ''0''))) SpeakError) =
     Finished \<and>
   messages (ctx (step (step listening (ListenOrKeypressDone (Keypress ''0''))) SpeakError)) =
     messages (ctx listening) \<and>
   messages (ctx (step (step listening (ListenOrKeypressDone (Keypress ''0''))) SpeakError)) \<noteq>
     messages (ctx listening) @ [\<lparr>role = Assistant, content = farewell\<rparr>] \<and>
   PrintQuestion \<notin>
     set (trace (step (step listening (ListenOrKeypressDone (Keypress ''0''))) SpeakError)) \<and>
   trace (step (step listening (ListenOrKeypressDone (Keypress ''0''))) SpeakError) =
     trace listening @ [InvokeSpeak farewell False, ProcessExit]"
  by (simp add: listening_eval initialContext_def dispatch)

text \<open>
  Claim C5 at a failing input. In \<^verbatim>\<open>LastQuestionWaitForYN\<close> the key \<^verbatim>\<open>x\<close> leads to
  \<^verbatim>\<open>ProcessYN\<close>, whose two transitions are guarded by \<^verbatim>\<open>isYesKey\<close> and \<^verbatim>\<open>isNoKey\<close>
  and have no default beside them. The machine stays there, still active, with nothing
  invoked and nothing printed, and no sequence of events moves it: it never reaches
  \<^verbatim>\<open>Done\<close>.
\<close>

theorem confirmation_other_key_stuck:
  "st confirming = LastQuestionWaitForYN \<and> status confirming = Active \<and>
   st (step confirming (WaitForKeyDone ''x'')) = ProcessYN \<and>
   status (step confirming (WaitForKeyDone ''x'')) = Active \<and>
   trace (step confirming (WaitForKeyDone ''x'')) = trace confirming \<and>
   (\<forall>evs. run (step confirming (WaitForKeyDone ''x'')) evs =
      step confirming (WaitForKeyDone ''x''))"
proof -
  have c: "confirming = listening\<lparr>st := LastQuestionWaitForYN,
      ctx := (ctx listening)\<lparr>messages := messages (ctx listening) @
         [\<lparr>role = Assistant, content = farewell\<rparr>], keyPressed := Some ''0''\<rparr>,
      trace := trace listening @ [InvokeSpeak farewell False, PrintQuestion,
         InvokeWaitForKey]\<rparr>"
    by (simp add: confirming_def run_def listening_eval initialContext_def dispatch)
  have s: "step confirming (WaitForKeyDone ''x'') =
      confirming\<lparr>st := ProcessYN, ctx := (ctx confirming)\<lparr>keyPressed := Some ''x''\<rparr>\<rparr>"
    unfolding c by (simp add: listening_eval initialContext_def dispatch)
  show ?thesis
    unfolding s by (simp add: run_stuck) (simp add: c listening_eval)
qed

section \<open>The pending manipulation\<close>

text \<open>
  Claim C6 at a failing input. The key \<^verbatim>\<open>1\<close> sets \<^verbatim>\<open>pendingManipulation\<close> to its
  phrase on the way to \<^verbatim>\<open>SpeakManipulation\<close>. When the speech actor then fails, the
  machine is back in the listening race with the phrase still in the field: only the
  handler for a successful delivery clears it.
\<close>

theorem manipulation_speak_error_keeps_pending:
  "st (step listening (ListenOrKeypressDone (Keypress ''1''))) = SpeakManipulation \<and>
   pendingManipulation (ctx (step listening (ListenOrKeypressDone (Keypress ''1'')))) =
     Some ''Hmm, the Doctor?'' \<and>
   st (step (step listening (ListenOrKeypressDone (Keypress ''1''))) SpeakError) =
     ListeningOrWaitingForKey \<and>
   pendingManipulation
     (ctx (step (step listening (ListenOrKeypressDone (Keypress ''1''))) SpeakError)) =
     Some ''Hmm, the Doctor?'' \<and>
   pendingManipulation
     (ctx (step (step listening (ListenOrKeypressDone (Keypress ''1''))) SpeakDone)) = None"
  by (simp add: listening_eval initialContext_def dispatch manipulations_def)

section \<open>Utterances without a match\<close>

text \<open>
  Claim C7. An utterance contains the marker in any letter case when seven consecutive
  characters of it are, in this order, \<^verbatim>\<open>n\<close> or \<^verbatim>\<open>N\<close>, \<^verbatim>\<open>o\<close> or \<^verbatim>\<open>O\<close>, \<^verbatim>\<open>m\<close> or
  \<^verbatim>\<open>M\<close>, \<^verbatim>\<open>a\<close> or \<^verbatim>\<open>A\<close>, \<^verbatim>\<open>t\<close> or \<^verbatim>\<open>T\<close>, \<^verbatim>\<open>c\<close> or \<^verbatim>\<open>C\<close>, \<^verbatim>\<open>h\<close> or \<^verbatim>\<open>H\<close>.
  \<^verbatim>\<open>sanitizeUtterance\<close> returns the placeholder of three dots for exactly these
  utterances and every other utterance unchanged; in particular an utterance without the
  letter \<^verbatim>\<open>n\<close> in either case is kept as it is. A speech result in the listening race
  appends the sanitized utterance to the buffer and leaves the history alone. Starting
  from an empty buffer, the utterances \<^verbatim>\<open>NOMATCH\<close> and \<^verbatim>\<open>NoMatch foo\<close>
  fill the buffer with two placeholders, and the keypress that follows, whatever the key,
  appends to the history the single user message of the two placeholders with one space
  between them (and behind it the phrase of the key, if the key is a manipulation key).
\<close>

theorem nomatch_replaced_before_buffering:
  assumes "status c = Active" and "st c = ListeningOrWaitingForKey"
  shows "sanitizeUtterance u =
           (if \<exists>pre m post. u = pre @ m @ post \<and>
                 list_all2 (\<lambda>ch p. ch = fst p \<or> ch = snd p) m
                   [(CHR ''n'', CHR ''N''), (CHR ''o'', CHR ''O''), (CHR ''m'', CHR ''M''),
                    (CHR ''a'', CHR ''A''), (CHR ''t'', CHR ''T''), (CHR ''c'', CHR ''C''),
                    (CHR ''h'', CHR ''H'')]
            then ''...'' else u) \<and>
         (CHR ''n'' \<notin> set u \<and> CHR ''N'' \<notin> set u \<longrightarrow> sanitizeUtterance u = u) \<and>
         userSpeechBuffer (ctx (step c (ListenOrKeypressDone (Speech u)))) =
           userSpeechBuffer (ctx c) @ [sanitizeUtterance u] \<and>
         messages (ctx (step c (ListenOrKeypressDone (Speech u)))) = messages (ctx c) \<and>
         (userSpeechBuffer (ctx c) = [] \<longrightarrow>
            userSpeechBuffer (ctx (run c [ListenOrKeypressDone (Speech ''NOMATCH''),
                ListenOrKeypressDone (Speech ''NoMatch foo'')])) = [''...'', ''...''] \<and>
            messages (ctx (run c [ListenOrKeypressDone (Speech ''NOMATCH''),
                ListenOrKeypressDone (Speech ''NoMatch foo''),
                ListenOrKeypressDone (Keypress k)])) =
              messages (ctx c) @ [\<lparr>role = User, content = ''... ...''\<rparr>] @
                (case manipulations k of
                   None \<Rightarrow> []
                 | Some p \<Rightarrow> [\<lparr>role = Assistant, content = p\<rparr>]))"
proof -
  have 1: "sanitizeUtterance u =
           (if \<exists>pre m post. u = pre @ m @ post \<and>
                 list_all2 (\<lambda>ch p. ch = fst p \<or> ch = snd p) m
                   [(CHR ''n'', CHR ''N''), (CHR ''o'', CHR ''O''), (CHR ''m'', CHR ''M''),
                    (CHR ''a'', CHR ''A''), (CHR ''t'', CHR ''T''), (CHR ''c'', CHR ''C''),
                    (CHR ''h'', CHR ''H'')]
            then ''...'' else u)"
    unfolding sanitizeUtterance_def includes_toLowerCase_iff nomatch_variants ..
  have 0: "sanitizeUtterance u = u" if n: "CHR ''n'' \<notin> set u" "CHR ''N'' \<notin> set u"
  proof -
    have "\<not> (\<exists>pre m post. u = pre @ m @ post \<and>
                 list_all2 (\<lambda>ch p. ch = fst p \<or> ch = snd p) m
                   [(CHR ''n'', CHR ''N''), (CHR ''o'', CHR ''O''), (CHR ''m'', CHR ''M''),
                    (CHR ''a'', CHR ''A''), (CHR ''t'', CHR ''T''), (CHR ''c'', CHR ''C''),
                    (CHR ''h'', CHR ''H'')])"
    proof
      assume "\<exists>pre m post. u = pre @ m @ post \<and>
                 list_all2 (\<lambda>ch p. ch = fst p \<or> ch = snd p) m
                   [(CHR ''n'', CHR ''N''), (CHR ''o'', CHR ''O''), (CHR ''m'', CHR ''M''),
                    (CHR ''a'', CHR ''A''), (CHR ''t'', CHR ''T''), (CHR ''c'', CHR ''C''),
                    (CHR ''h'', CHR ''H'')]"
      then obtain pre m post where u: "u = pre @ m @ post"
        and l: "list_all2 (\<lambda>ch p. ch = fst p \<or> ch = snd p) m
          [(CHR ''n'', CHR ''N''), (CHR ''o'', CHR ''O''), (CHR ''m'', CHR ''M''),
           (CHR ''a'', CHR ''A''), (CHR ''t'', CHR ''T''), (CHR ''c'', CHR ''C''),
           (CHR ''h'', CHR ''H'')]"
        by blast
      from l obtain ch where "ch \<in> set m" and "ch = CHR ''n'' \<or> ch = CHR ''N''"
        by (cases m) auto
      with u have "CHR ''n'' \<in> set u \<or> CHR ''N'' \<in> set u" by auto
      with n show False by auto
    qed
    then show ?thesis
      unfolding 1 by (rule if_not_P)
  qed
  let ?c2 = "step (step c (ListenOrKeypressDone (Speech ''NOMATCH'')))
                (ListenOrKeypressDone (Speech ''NoMatch foo''))"
  have c2: "?c2 = c\<lparr>ctx := (ctx c)\<lparr>lastResult := ''...'',
                userSpeechBuffer := userSpeechBuffer (ctx c) @ [''...'', ''...''],
                keyPressed := None\<rparr>,
       trace := trace c @ [InvokeListenOrKeypress, InvokeListenOrKeypress]\<rparr>"
    using assms by (simp add: step_speech sanitize_NOMATCH sanitize_NoMatch_foo)
  have 2: "userSpeechBuffer (ctx c) = [] \<Longrightarrow>
      messages (ctx (step ?c2 (ListenOrKeypressDone (Keypress k)))) =
      messages (ctx c) @ [\<lparr>role = User, content = ''... ...''\<rparr>] @
                (case manipulations k of
                   None \<Rightarrow> []
                 | Some p \<Rightarrow> [\<lparr>role = Assistant, content = p\<rparr>])"
    using assms
    by (subst step_keypress_messages) (simp_all add: c2 join_def)
  have 3: "userSpeechBuffer (ctx (step c (ListenOrKeypressDone (Speech u)))) =
           userSpeechBuffer (ctx c) @ [sanitizeUtterance u]"
    and 4: "messages (ctx (step c (ListenOrKeypressDone (Speech u)))) = messages (ctx c)"
    using assms by (simp_all add: step_speech)
  have 5: "userSpeechBuffer (ctx c) = [] \<Longrightarrow>
            userSpeechBuffer (ctx (run c [ListenOrKeypressDone (Speech ''NOMATCH''),
                ListenOrKeypressDone (Speech ''NoMatch foo'')])) = [''...'', ''...'']"
    using assms by (simp add: run_def step_speech sanitize_NOMATCH sanitize_NoMatch_foo)
  have 6: "run c [ListenOrKeypressDone (Speech ''NOMATCH''),
                ListenOrKeypressDone (Speech ''NoMatch foo''),
                ListenOrKeypressDone (Keypress k)] =
           step ?c2 (ListenOrKeypressDone (Keypress k))"
    by (simp add: run_def)
  from 0 1 2 3 4 5 show ?thesis
    unfolding 6 by blast
qed

theorem nomatch_replaced_before_buffering_witness:
  "sanitizeUtterance ''foo NoMaTcH bar'' = ''...'' \<and>
   sanitizeUtterance ''hello'' = ''hello'' \<and>
   userSpeechBuffer (ctx (step listening (ListenOrKeypressDone (Speech ''hello'')))) =
     [''hello''] \<and>
   userSpeechBuffer (ctx (step listening (ListenOrKeypressDone (Speech ''foo NoMaTcH bar'')))) =
     [''...''] \<and>
   messages (ctx (run listening [ListenOrKeypressDone (Speech ''NOMATCH''),
      ListenOrKeypressDone (Speech ''NoMatch foo''), ListenOrKeypressDone (Keypress ''l'')])) =
     messages initialContext @ [\<lparr>role = User, content = ''... ...''\<rparr>]"
proof -
  have e: "\<exists>pre m post. ''foo NoMaTcH bar'' = pre @ m @ post \<and>
      list_all2 (\<lambda>ch p. ch = fst p \<or> ch = snd p) m
        [(CHR ''n'', CHR ''N''), (CHR ''o'', CHR ''O''), (CHR ''m'', CHR ''M''),
        (CHR ''a'', CHR ''A''), (CHR ''t'', CHR ''T''), (CHR ''c'', CHR ''C''),
        (CHR ''h'', CHR ''H'')]"
  proof (intro exI conjI)
    show "''foo NoMaTcH bar'' = ''foo '' @ ''NoMaTcH'' @ '' bar''" by simp
    show "list_all2 (\<lambda>ch p. ch = fst p \<or> ch = snd p) ''NoMaTcH''
        [(CHR ''n'', CHR ''N''), (CHR ''o'', CHR ''O''), (CHR ''m'', CHR ''M''),
        (CHR ''a'', CHR ''A''), (CHR ''t'', CHR ''T''), (CHR ''c'', CHR ''C''),
        (CHR ''h'', CHR ''H'')]"
      by simp
  qed
  have l: "status listening = Active" "st listening = ListeningOrWaitingForKey"
    and b: "userSpeechBuffer (ctx listening) = []"
    by (simp_all add: listening_eval initialContext_def)
  have h: "CHR ''n'' \<notin> set ''hello'' \<and> CHR ''N'' \<notin> set ''hello''"
    by simp
  from nomatch_replaced_before_buffering [OF l, of "''foo NoMaTcH bar''" "''l''"] e b
  have 1: "sanitizeUtterance ''foo NoMaTcH bar'' = ''...''"
    and 2: "userSpeechBuffer
        (ctx (step listening (ListenOrKeypressDone (Speech ''foo NoMaTcH bar'')))) = [''...'']"
    and 3: "messages (ctx (run listening [ListenOrKeypressDone (Speech ''NOMATCH''),
      ListenOrKeypressDone (Speech ''NoMatch foo''), ListenOrKeypressDone (Keypress ''l'')])) =
     messages initialContext @ [\<lparr>role = User, content = ''... ...''\<rparr>]"
    by (simp_all add: manipulations_def listening_eval initialContext_def)
  note t = nomatch_replaced_before_buffering [OF l, of "''hello''" "''l''"]
  from t [THEN conjunct2, THEN conjunct1] h
  have 4: "sanitizeUtterance ''hello'' = ''hello''"
    by (rule mp)
  from t [THEN conjunct2, THEN conjunct2, THEN conjunct1]
  have 5: "userSpeechBuffer (ctx (step listening (ListenOrKeypressDone (Speech ''hello'')))) =
     [''hello'']"
    by (simp add: 4 b)
  from 1 2 3 4 5 show ?thesis by blast
qed

section \<open>The classification of a keypress\<close>

text \<open>
  What the two dispatching states select. For every context, whatever token
  \<^verbatim>\<open>keyPressed\<close> holds: at most one of the
  guarded transitions of \<^verbatim>\<open>ProcessKeypress\<close> is enabled; the transition selected leads to
  \<^verbatim>\<open>End\<close> for \<^verbatim>\<open>0\<close>, to \<^verbatim>\<open>ProcessingResponse\<close> for \<^verbatim>\<open>l\<close>, to \<^verbatim>\<open>ListMessages\<close> for
  \<^verbatim>\<open>m\<close>, to \<^verbatim>\<open>AddManipulation\<close> for the twelve manipulation keys, and back to the
  listening race otherwise; the default is selected exactly when no guard holds; and any
  reordering of the guarded transitions in front of the default selects the same
  transition. The table of phrases is defined on exactly the twelve manipulation keys and
  gives each its own phrase. In the confirmation state at most one of the two guarded
  transitions is enabled, \<^verbatim>\<open>y\<close> selects the dump of the history, \<^verbatim>\<open>n\<close> selects \<^verbatim>\<open>Done\<close>,
  every other token selects no transition, and the order of the two does not matter.
\<close>

lemma keypress_classification_partition:
  "length (filter (\<lambda>t. guard t x) ProcessKeypress_guarded) \<le> 1 \<and>
   map_option target (select (always_transitions ProcessKeypress) x) =
     Some (if keyPressed x = Some ''0'' then End
           else if keyPressed x = Some ''l'' then ProcessingResponse
           else if keyPressed x = Some ''m'' then ListMessages
           else if \<exists>k. keyPressed x = Some k \<and> k \<in> set manipulationKeys then AddManipulation
           else ListeningOrWaitingForKey) \<and>
   (select (always_transitions ProcessKeypress) x = Some ProcessKeypress_default) =
     (filter (\<lambda>t. guard t x) ProcessKeypress_guarded = []) \<and>
   (mset ts = mset ProcessKeypress_guarded \<longrightarrow>
      select (ts @ [ProcessKeypress_default]) x = select (always_transitions ProcessKeypress) x) \<and>
   dom manipulations = set manipulationKeys \<and> card (set manipulationKeys) = 12 \<and>
   inj_on manipulations (set manipulationKeys) \<and>
   length (filter (\<lambda>t. guard t x) ProcessYN_always) \<le> 1 \<and>
   map_option target (select (always_transitions ProcessYN) x) =
     (if keyPressed x = Some ''y'' then Some ListMessagesBeforeFinal
      else if keyPressed x = Some ''n'' then Some Done
      else None) \<and>
   (mset ts' = mset ProcessYN_always \<longrightarrow>
      select ts' x = select (always_transitions ProcessYN) x)"
proof -
  have 1: "length (filter (\<lambda>t. guard t x) ProcessKeypress_guarded) \<le> 1"
    by (simp add: guards goto_def)
  have 2: "map_option target (select (always_transitions ProcessKeypress) x) =
     Some (if keyPressed x = Some ''0'' then End
           else if keyPressed x = Some ''l'' then ProcessingResponse
           else if keyPressed x = Some ''m'' then ListMessages
           else if \<exists>k. keyPressed x = Some k \<and> k \<in> set manipulationKeys then AddManipulation
           else ListeningOrWaitingForKey)"
    by (cases "keyPressed x") (simp_all add: select_def guards goto_def)
  have 3: "(select (always_transitions ProcessKeypress) x = Some ProcessKeypress_default) =
     (filter (\<lambda>t. guard t x) ProcessKeypress_guarded = [])"
    by (cases "keyPressed x") (auto simp: select_def guards goto_def)
  have 4: "select (ts @ [ProcessKeypress_default]) x = select (always_transitions ProcessKeypress) x"
    if "mset ts = mset ProcessKeypress_guarded"
  proof -
    from that have "set ts = set ProcessKeypress_guarded" by (rule mset_eq_setD)
    then have "find (\<lambda>t. guard t x) ts = find (\<lambda>t. guard t x) ProcessKeypress_guarded"
      by (intro find_unique ProcessKeypress_guarded_exclusive)
    then show ?thesis by (simp add: select_def find_append_default)
  qed
  have 5: "length (filter (\<lambda>t. guard t x) ProcessYN_always) \<le> 1"
    by (simp add: guards goto_def)
  have 6: "map_option target (select (always_transitions ProcessYN) x) =
     (if keyPressed x = Some ''y'' then Some ListMessagesBeforeFinal
      else if keyPressed x = Some ''n'' then Some Done
      else None)"
    by (simp add: select_def guards goto_def)
  have 7: "select ts' x = select (always_transitions ProcessYN) x"
    if "mset ts' = mset ProcessYN_always"
  proof -
    from that have "set ts' = set ProcessYN_always" by (rule mset_eq_setD)
    then have "find (\<lambda>t. guard t x) ts' = find (\<lambda>t. guard t x) ProcessYN_always"
      by (intro find_unique ProcessYN_exclusive)
    then show ?thesis by (simp add: select_def)
  qed
  from 1 2 3 4 5 6 7 dom_manipulations card_manipulationKeys inj_manipulations
  show ?thesis by blast
qed

lemma keypress_classification_partition_example:
  "map_option target
     (select (always_transitions ProcessKeypress) (initialContext\<lparr>keyPressed := Some ''q''\<rparr>)) =
     Some AddManipulation \<and>
   select (rev ProcessKeypress_guarded @ [ProcessKeypress_default])
       (initialContext\<lparr>keyPressed := Some ''q''\<rparr>) =
     select (always_transitions ProcessKeypress) (initialContext\<lparr>keyPressed := Some ''q''\<rparr>) \<and>
   select (rev ProcessYN_always) (initialContext\<lparr>keyPressed := Some ''n''\<rparr>) =
     select (always_transitions ProcessYN) (initialContext\<lparr>keyPressed := Some ''n''\<rparr>) \<and>
   map_option target
     (select (always_transitions ProcessYN) (initialContext\<lparr>keyPressed := Some ''q''\<rparr>)) = None"
  using keypress_classification_partition
    [of "initialContext\<lparr>keyPressed := Some ''q''\<rparr>" "rev ProcessKeypress_guarded" ts']
    keypress_classification_partition
    [of "initialContext\<lparr>keyPressed := Some ''n''\<rparr>" ts "rev ProcessYN_always"]
  by (simp add: manipulationKeys_def)

text \<open>
  Claim C8 at a failing input. In the confirmation state, after the key \<^verbatim>\<open>x\<close>, neither
  guard of \<^verbatim>\<open>ProcessYN\<close> holds and its list of transitions has no default, so no
  transition is selected: the token falls into no class there, where the same context in
  \<^verbatim>\<open>ProcessKeypress\<close> selects the default for an unknown key.
\<close>

theorem confirmation_classification_not_total:
  "st (step confirming (WaitForKeyDone ''x'')) = ProcessYN \<and>
   keyPressed (ctx (step confirming (WaitForKeyDone ''x''))) = Some ''x'' \<and>
   filter (\<lambda>t. guard t (ctx (step confirming (WaitForKeyDone ''x''))))
     (always_transitions ProcessYN) = [] \<and>
   select (always_transitions ProcessYN) (ctx (step confirming (WaitForKeyDone ''x''))) = None \<and>
   select (always_transitions ProcessKeypress) (ctx (step confirming (WaitForKeyDone ''x''))) =
     Some ProcessKeypress_default"
proof -
  have c: "confirming = listening\<lparr>st := LastQuestionWaitForYN,
      ctx := (ctx listening)\<lparr>messages := messages (ctx listening) @
         [\<lparr>role = Assistant, content = farewell\<rparr>], keyPressed := Some ''0''\<rparr>,
      trace := trace listening @ [InvokeSpeak farewell False, PrintQuestion,
         InvokeWaitForKey]\<rparr>"
    by (simp add: confirming_def run_def listening_eval initialContext_def dispatch)
  have s: "step confirming (WaitForKeyDone ''x'') =
      confirming\<lparr>st := ProcessYN, ctx := (ctx confirming)\<lparr>keyPressed := Some ''x''\<rparr>\<rparr>"
    unfolding c by (simp add: listening_eval initialContext_def dispatch)
  show ?thesis
    unfolding s by (simp add: select_def guards goto_def)
qed

section \<open>The history\<close>

text \<open>
  Claim C9. Reachable are the initial snapshot of the machine and every snapshot that a
  reachable one gets to by an event. For every reachable snapshot and every event, the
  history after the step is the history before it with further messages appended, none
  of them a system message, so the old history is a prefix of the new one; and in every
  reachable snapshot the history is not empty, its first message is the system message
  of the initial context, and that is its only system message.
\<close>

theorem history_only_grows:
  assumes "reachable c"
  shows "(\<exists>new. messages (ctx (step c ev)) = messages (ctx c) @ new \<and>
            (\<forall>m \<in> set new. role m \<noteq> System)) \<and>
         prefix (messages (ctx c)) (messages (ctx (step c ev))) \<and>
         messages (ctx c) \<noteq> [] \<and>
         hd (messages (ctx c)) = \<lparr>role = System, content = systemPrompt\<rparr> \<and>
         filter (\<lambda>m. role m = System) (messages (ctx c)) =
           [\<lparr>role = System, content = systemPrompt\<rparr>]"
proof -
  have g: "grows c (step c ev)" by (rule grows_step)
  then have 1: "\<exists>new. messages (ctx (step c ev)) = messages (ctx c) @ new \<and>
            (\<forall>m \<in> set new. role m \<noteq> System)"
    by (simp add: grows_def)
  then have 2: "prefix (messages (ctx c)) (messages (ctx (step c ev)))"
    by (auto simp: prefix_def)
  from assms obtain new where n: "messages (ctx c) = messages initialContext @ new"
    and s: "\<forall>m \<in> set new. role m \<noteq> System"
    using reachable_grows [of c] by (auto simp: grows_def)
  from s have "filter (\<lambda>m. role m = System) new = []"
    by (simp add: filter_empty_conv)
  with n have 3: "messages (ctx c) \<noteq> []"
    and 4: "hd (messages (ctx c)) = \<lparr>role = System, content = systemPrompt\<rparr>"
    and 5: "filter (\<lambda>m. role m = System) (messages (ctx c)) =
           [\<lparr>role = System, content = systemPrompt\<rparr>]"
    by (simp_all add: initialContext_def)
  from 1 2 3 4 5 show ?thesis by blast
qed

theorem history_only_grows_witness:
  "reachable listening \<and>
   prefix (messages (ctx listening))
     (messages (ctx (step listening (ListenOrKeypressDone (Keypress ''1''))))) \<and>
   hd (messages (ctx listening)) = \<lparr>role = System, content = systemPrompt\<rparr> \<and>
   filter (\<lambda>m. role m = System) (messages (ctx listening)) =
     [\<lparr>role = System, content = systemPrompt\<rparr>]"
proof -
  have r: "reachable listening"
    unfolding listening_def by (rule reachable_run) (rule reachable_start)
  from history_only_grows [OF r, of "ListenOrKeypressDone (Keypress ''1'')"] r
  show ?thesis by blast
qed

section \<open>The tokens of the keyboard\<close>



end
